theory Spec2Isabelle
  imports Main "HOL-Library.Word"
begin

section \<open>Wildcard matching (the library functions used by \<open>PathPattern\<close>)\<close>

text \<open>
  \<open>PathPattern\<close> calls \<open>fnmatch.translate\<close> and \<open>fnmatch.fnmatch\<close> of the Python
  standard library. They are embedded here as CPython 3.11 defines them, with
  \<open>os.path = posixpath\<close> (so \<open>os.path.normcase\<close> is the identity). \<open>translate\<close> turns a
  wildcard pattern into a regular expression; the embedding produces the expression as a
  list of tokens, one per piece that \<open>translate\<close> adds: \<open>STAR\<close> for a run of \<open>*\<close>, \<open>ANY\<close> for
  \<open>?\<close>, \<open>LIT c\<close> for an escaped literal character and \<open>SET neg chunks\<close> for a bracket
  expression. A path is a \<open>string\<close>.
\<close>

datatype tok = STAR | ANY | LIT char | SET bool "string list"

text \<open>
  The scan for the closing bracket: \<open>cs\<close> is the pattern after an opening \<open>[\<close>; a leading
  \<open>!\<close> and then a leading \<open>]\<close> are skipped, and the next \<open>]\<close> closes the expression. The result
  is \<open>pat[i:j]\<close> and \<open>pat[j+1:]\<close>, or \<open>None\<close> when there is no closing bracket.
\<close>

fun split_close :: "string \<Rightarrow> (string \<times> string) option" where
  "split_close [] = None"
| "split_close (c # cs) =
     (if c = CHR '']'' then Some ([], cs)
      else map_option (\<lambda>(stuff, rest). (c # stuff, rest)) (split_close cs))"

definition bracket :: "string \<Rightarrow> (string \<times> string) option" where
  "bracket cs =
     (let (p1, r1) = (if cs \<noteq> [] \<and> hd cs = CHR ''!'' then ([CHR ''!''], tl cs) else ([], cs));
          (p2, r2) = (if r1 \<noteq> [] \<and> hd r1 = CHR '']'' then ([CHR '']''], tl r1) else ([], r1))
      in map_option (\<lambda>(stuff, rest). (p1 @ p2 @ stuff, rest)) (split_close r2))"

text \<open>
  The chunks of a bracket expression that contains a hyphen: the expression is cut at every
  hyphen that stands for a range. \<open>skip\<close> counts the characters that cannot be such a hyphen
  (\<open>k = i+1\<close> or \<open>i+2\<close> at the start, \<open>k = k+3\<close> after a cut); \<open>acc\<close> is the current chunk,
  reversed.
\<close>

fun chunks_from :: "nat \<Rightarrow> string \<Rightarrow> string \<Rightarrow> string list" where
  "chunks_from skip acc [] = [rev acc]"
| "chunks_from (Suc skip) acc (c # cs) = chunks_from skip (c # acc) cs"
| "chunks_from 0 acc (c # cs) =
     (if c = CHR ''-'' then rev acc # chunks_from 2 [] cs
      else chunks_from 0 (c # acc) cs)"

text \<open>An empty last chunk means that the expression ends with a hyphen, which is literal.\<close>

definition fix_last :: "string list \<Rightarrow> string list" where
  "fix_last chunks =
     (if chunks \<noteq> [] \<and> last chunks = [] \<and> butlast chunks \<noteq> []
      then butlast (butlast chunks) @ [last (butlast chunks) @ [CHR ''-'']]
      else chunks)"

text \<open>
  Empty ranges are removed from the right to the left: where the last character of a chunk is
  above the first character of the next one, the two chunks are joined without them.
\<close>

fun rm_empty :: "string list \<Rightarrow> string list" where
  "rm_empty [] = []"
| "rm_empty [a] = [a]"
| "rm_empty (a # b # bs) =
     (case rm_empty (b # bs) of
        [] \<Rightarrow> [a]
      | c # cs \<Rightarrow>
          (if a \<noteq> [] \<and> c \<noteq> [] \<and> (of_char (last a) :: nat) > of_char (hd c)
           then (butlast a @ tl c) # cs
           else a # c # cs))"

definition char_set :: "string \<Rightarrow> tok" where
  "char_set stuff =
     (let chunks =
            (if CHR ''-'' \<notin> set stuff then [stuff]
             else rm_empty (fix_last
                    (chunks_from (if hd stuff = CHR ''!'' then 2 else 1) [] stuff)));
          neg = (chunks \<noteq> [] \<and> hd chunks \<noteq> [] \<and> hd (hd chunks) = CHR ''!'')
      in SET neg (if neg then tl (hd chunks) # tl chunks else chunks))"

text \<open>
  \<open>translate\<close>: consecutive stars are compressed into one; a bracket without a closing
  bracket is a literal \<open>[\<close>.
\<close>

function translate :: "string \<Rightarrow> tok list" where
  "translate [] = []"
| "translate (c # cs) =
     (if c = CHR ''*'' then
        (case translate cs of STAR # ts \<Rightarrow> STAR # ts | ts \<Rightarrow> STAR # ts)
      else if c = CHR ''?'' then ANY # translate cs
      else if c = CHR ''['' then
        (case bracket cs of
           None \<Rightarrow> LIT c # translate cs
         | Some (stuff, rest) \<Rightarrow> char_set stuff # translate rest)
      else LIT c # translate cs)"
  by pat_completeness auto
termination
proof -
  have close: "split_close cs = Some (stuff, rest) \<Longrightarrow> length rest < length cs"
    for cs stuff rest
  proof (induction cs arbitrary: stuff rest)
    case Nil
    then show ?case by simp
  next
    case (Cons c cs)
    then show ?case by (fastforce split: if_splits)
  qed
  have shorter: "length rest < Suc (length cs)" if "bracket cs = Some (stuff, rest)"
    for cs stuff rest
  proof -
    from that obtain r2 s2 where "split_close r2 = Some (s2, rest)" and "length r2 \<le> length cs"
      by (auto simp: bracket_def Let_def split: if_splits)
    with close [of r2 s2 rest] show ?thesis by simp
  qed
  show ?thesis
    by (relation "measure length") (auto dest: shorter)
qed

text \<open>
  Membership in a character class \<open>[c1-c2-...]\<close>: every character of a chunk is a member, and
  so is every character between the last character of a chunk and the first character of the
  next one.
\<close>

fun in_ranges :: "char \<Rightarrow> string list \<Rightarrow> bool" where
  "in_ranges x (a # b # bs) =
     ((a \<noteq> [] \<and> b \<noteq> [] \<and> (of_char (last a) :: nat) \<le> of_char x
         \<and> (of_char x :: nat) \<le> of_char (hd b))
      \<or> in_ranges x (b # bs))"
| "in_ranges x bs = False"

fun tok_match :: "tok \<Rightarrow> char \<Rightarrow> bool" where
  "tok_match STAR x = True"
| "tok_match ANY x = True"
| "tok_match (LIT c) x = (x = c)"
| "tok_match (SET neg chunks) x =
     (((\<exists>chunk \<in> set chunks. x \<in> set chunk) \<or> in_ranges x chunks) \<noteq> neg)"

text \<open>
  Matching of the whole string against the expression (\<open>(?s:...)\Z\<close>: the dot matches
  every character and the match is anchored at both ends).
\<close>

fun re_match :: "tok list \<Rightarrow> string \<Rightarrow> bool" where
  "re_match [] s = (s = [])"
| "re_match (STAR # ts) [] = re_match ts []"
| "re_match (STAR # ts) (x # s) = (re_match ts (x # s) \<or> re_match (STAR # ts) s)"
| "re_match (t # ts) [] = False"
| "re_match (t # ts) (x # s) = (tok_match t x \<and> re_match ts s)"

definition fnmatch :: "string \<Rightarrow> string \<Rightarrow> bool" where
  "fnmatch name pat = re_match (translate pat) name"

section \<open>PathPattern\<close>

text \<open>
  A \<open>PathPattern\<close> built from a wildcard string (\<open>regex=False\<close>), which is how the extractor
  unit builds every pattern: the stops are the prefixes \<open>pp[:k]\<close> for every position \<open>k\<close>
  that holds one of \<open>/\<close>, \<open>*\<close>, \<open>?\<close>, and the pattern is the translated expression.
\<close>

record PathPattern =
  stops :: "string list"
  pattern :: "tok list"

definition is_stop_char :: "char \<Rightarrow> bool" where
  "is_stop_char c = (c = CHR ''/'' \<or> c = CHR ''*'' \<or> c = CHR ''?'')"

definition make_stops :: "string \<Rightarrow> string list" where
  "make_stops pp = [take k pp. k \<leftarrow> [0 ..< length pp], is_stop_char (pp ! k)]"

definition PathPattern :: "string \<Rightarrow> PathPattern" where
  "PathPattern pp = \<lparr> stops = make_stops pp, pattern = translate pp \<rparr>"

definition reach :: "PathPattern \<Rightarrow> string \<Rightarrow> bool" where
  "reach p path = (if stops p = [] then True else (\<exists>stop \<in> set (stops p). fnmatch path stop))"

definition check :: "PathPattern \<Rightarrow> string \<Rightarrow> bool" where
  "check p path = re_match (pattern p) path"


section \<open>UnpackResult\<close>

type_synonym byte = "8 word"
type_synonym bytes = "byte list"

datatype error = EndOfStringNotFound | IndexError | ProducerError

text \<open>
  The \<open>data\<close> field holds either a byte string or a callable without arguments. A call of
  the callable returns a byte string or raises; what it raises is \<open>ProducerError\<close> here.
\<close>

datatype payload = Bytes bytes | Deferred "unit \<Rightarrow> error + bytes"

record UnpackResult =
  path :: string
  data :: payload

text \<open>
  \<open>get_data\<close> returns the outcome of the call, the object as the call leaves it, and the
  number of times it has invoked the callable. When the callable raises, the assignment to
  \<open>self.data\<close> does not happen.
\<close>

definition get_data :: "UnpackResult \<Rightarrow> (error + bytes) \<times> UnpackResult \<times> nat" where
  "get_data r =
     (case data r of
        Bytes b \<Rightarrow> (Inr b, r, 0)
      | Deferred f \<Rightarrow>
          (case f () of
             Inl e \<Rightarrow> (Inl e, r, 1)
           | Inr b \<Rightarrow> (Inr b, r\<lparr>data := Bytes b\<rparr>, 1)))"

section \<open>PathExtractorUnit\<close>

text \<open>\<open>zlib.adler32\<close> of a byte string, with the initial value 1.\<close>

fun adler_loop :: "nat \<Rightarrow> nat \<Rightarrow> bytes \<Rightarrow> nat" where
  "adler_loop a b [] = b * 65536 + a"
| "adler_loop a b (x # xs) =
     (let a' = (a + unat x) mod 65521; b' = (b + a') mod 65521 in adler_loop a' b' xs)"

definition adler32 :: "bytes \<Rightarrow> nat" where
  "adler32 bs = adler_loop 1 0 bs"

text \<open>\<open>os.path.join\<close> of two components (\<open>posixpath\<close>).\<close>

definition path_join :: "string \<Rightarrow> string \<Rightarrow> string" where
  "path_join a b =
     (if b \<noteq> [] \<and> hd b = CHR ''/'' then b
      else if a = [] \<or> last a = CHR ''/'' then a @ b
      else a @ CHR ''/'' # b)"

text \<open>
  The arguments of the unit: the patterns, the switches \<open>list\<close> and \<open>join\<close>, and the codec
  that encodes a path in list mode.
\<close>

record args =
  patterns :: "PathPattern list"
  list_flag :: bool
  join :: bool
  codec :: "string \<Rightarrow> bytes"

text \<open>The constructor of the unit builds one wildcard pattern for each path argument.\<close>

definition init_args :: "string list \<Rightarrow> bool \<Rightarrow> bool \<Rightarrow> (string \<Rightarrow> bytes) \<Rightarrow> args" where
  "init_args ps l j c = \<lparr> patterns = map PathPattern ps, list_flag = l, join = j, codec = c \<rparr>"

text \<open>The default of the path arguments.\<close>

definition default_paths :: "string list" where
  "default_paths = [''*'']"

definition check_reachable :: "args \<Rightarrow> string \<Rightarrow> bool" where
  "check_reachable a pth = (\<exists>p \<in> set (patterns a). reach p pth)"

definition check_path :: "args \<Rightarrow> string \<Rightarrow> bool" where
  "check_path a pth = (\<exists>p \<in> set (patterns a). check p pth)"

text \<open>
  What a run of \<open>process\<close> does, in order: the log calls and the chunks it yields. A chunk
  is the encoded path (list mode) or the payload labelled with its path.
\<close>

datatype event =
    LogDebug "tok list"
  | LogWarn string
  | LogInfo string
  | YieldPath bytes
  | YieldChunk bytes string

text \<open>
  The state of a run. The objects that \<open>unpack\<close> yields live in a store, addressed by
  natural numbers; \<open>results\<close> holds addresses, as the Python list holds references.
  \<open>paths\<close> is the \<open>defaultdict(set)\<close> of checksums. \<open>invoked\<close> records the address of an
  object each time its callable is invoked.
\<close>

record pstate =
  store :: "nat \<Rightarrow> UnpackResult"
  results :: "nat list"
  paths :: "string \<rightharpoonup> nat set"
  invoked :: "nat list"
  trace :: "event list"

definition get_data_at :: "nat \<Rightarrow> pstate \<Rightarrow> (error + bytes) \<times> pstate" where
  "get_data_at r s =
     (case get_data (store s r) of
        (res, obj, n) \<Rightarrow>
          (res, s\<lparr>store := (store s)(r := obj), invoked := invoked s @ replicate n r\<rparr>))"

definition log :: "event \<Rightarrow> pstate \<Rightarrow> pstate" where
  "log e s = s\<lparr>trace := trace s @ [e]\<rparr>"

text \<open>
  The first loop of \<open>process\<close>, over the objects that \<open>unpack\<close> yields: \<open>collect_one\<close> is
  its body. An exception of \<open>get_data\<close> ends the run.
\<close>

definition collect_one :: "args \<Rightarrow> nat \<Rightarrow> pstate \<Rightarrow> error option \<times> pstate" where
  "collect_one a r s =
     (if check_path a (path (store s r)) then
        (if \<not> list_flag a then
           (case get_data_at r s of
              (Inl e, s') \<Rightarrow> (Some e, s')
            | (Inr d, s') \<Rightarrow> (None, s'\<lparr>results := results s' @ [r]\<rparr>))
         else (None, s\<lparr>results := results s @ [r]\<rparr>))
      else (None, s))"

fun collect :: "args \<Rightarrow> nat list \<Rightarrow> pstate \<Rightarrow> error option \<times> pstate" where
  "collect a [] s = (None, s)"
| "collect a (r # rs) s =
     (case collect_one a r s of
        (Some e, s') \<Rightarrow> (Some e, s')
      | (None, s') \<Rightarrow> collect a rs s')"

text \<open>The path of a chunk: joined with the root when \<open>join\<close> is set.\<close>

definition label :: "args \<Rightarrow> string \<Rightarrow> string \<Rightarrow> string" where
  "label a root pth = (if join a then path_join root pth else pth)"

text \<open>
  The inner loop of the second part, over the results, for one pattern \<open>p\<close>; \<open>emit_one\<close> is
  its body for the result \<open>r\<close>. A result that does not match is skipped. In list mode the
  encoded path is yielded and nothing else happens. Otherwise the checksum of the payload is
  looked up: a known checksum of the path skips the result; a new checksum of a known path is
  a warning; the checksum is recorded, the path is logged and the labelled payload yielded.
\<close>

definition emit_one :: "args \<Rightarrow> string \<Rightarrow> PathPattern \<Rightarrow> nat \<Rightarrow> pstate \<Rightarrow> error option \<times> pstate" where
  "emit_one a root p r s =
     (let pth = path (store s r) in
      if \<not> check p pth then (None, s)
      else if list_flag a then (None, log (YieldPath (codec a (label a root pth))) s)
      else
        (case get_data_at r s of
           (Inl e, s1) \<Rightarrow> (Some e, s1)
         | (Inr d, s1) \<Rightarrow>
             (let csum = adler32 d in
              if (case paths s1 pth of None \<Rightarrow> False | Some cs \<Rightarrow> csum \<in> cs)
              then (None, s1)
              else
                (let s2 = (if paths s1 pth \<noteq> None then log (LogWarn pth) s1 else s1);
                     s3 = s2\<lparr>paths := (paths s2)(pth \<mapsto>
                            insert csum (case paths s2 pth of None \<Rightarrow> {} | Some cs \<Rightarrow> cs))\<rparr>;
                     s4 = log (LogInfo (label a root pth)) s3
                 in (case get_data_at r s4 of
                       (Inl e, s5) \<Rightarrow> (Some e, s5)
                     | (Inr d', s5) \<Rightarrow>
                         (None, log (YieldChunk d' (label a root pth)) s5))))))"

fun emit :: "args \<Rightarrow> string \<Rightarrow> PathPattern \<Rightarrow> nat list \<Rightarrow> pstate \<Rightarrow> error option \<times> pstate" where
  "emit a root p [] s = (None, s)"
| "emit a root p (r # rs) s =
     (case emit_one a root p r s of
        (Some e, s') \<Rightarrow> (Some e, s')
      | (None, s') \<Rightarrow> emit a root p rs s')"

text \<open>The outer loop, over the patterns in the order of their declaration.\<close>

fun emit_all :: "args \<Rightarrow> string \<Rightarrow> PathPattern list \<Rightarrow> pstate \<Rightarrow> error option \<times> pstate" where
  "emit_all a root [] s = (None, s)"
| "emit_all a root (p # ps) s =
     (case emit a root p (results s) (log (LogDebug (pattern p)) s) of
        (Some e, s') \<Rightarrow> (Some e, s')
      | (None, s') \<Rightarrow> emit_all a root ps s')"

text \<open>
  The root of a run with \<open>join\<close>: the \<open>path\<close> entry of the input chunk, or the empty
  string when the chunk has none (\<open>KeyError\<close>, \<open>TypeError\<close>).
\<close>

definition root_of :: "string option \<Rightarrow> string" where
  "root_of meta_path = (case meta_path of None \<Rightarrow> [] | Some p \<Rightarrow> p)"

text \<open>
  \<open>process\<close>: \<open>meta_path\<close> is the \<open>path\<close> entry of the input chunk when it has one, \<open>objs\<close>
  are the addresses of the objects that \<open>unpack\<close> yields, in its order, and \<open>heap\<close> holds
  the objects. The result is the exception that ended the run, if any, and the final state.
\<close>

definition process :: "args \<Rightarrow> string option \<Rightarrow> nat list \<Rightarrow> (nat \<Rightarrow> UnpackResult)
    \<Rightarrow> error option \<times> pstate" where
  "process a meta_path objs heap =
     (let root = root_of meta_path;
          s0 = \<lparr>store = heap, results = [], paths = Map.empty, invoked = [], trace = []\<rparr>
      in case collect a objs s0 of
           (Some e, s) \<Rightarrow> (Some e, s)
         | (None, s) \<Rightarrow> emit_all a root (patterns a) s)"

definition yields :: "event list \<Rightarrow> event list" where
  "yields evs = filter (\<lambda>e. case e of YieldPath _ \<Rightarrow> True | YieldChunk _ _ \<Rightarrow> True | _ \<Rightarrow> False) evs"

definition warnings :: "event list \<Rightarrow> event list" where
  "warnings evs = filter (\<lambda>e. case e of LogWarn _ \<Rightarrow> True | _ \<Rightarrow> False) evs"

text \<open>
  What holds of the state throughout a run: an object keeps its path; an object whose path
  no pattern matches is as \<open>unpack\<close> yielded it and its callable has not been invoked; in
  list mode no object has changed and no callable has been invoked; the results are objects
  of \<open>unpack\<close> that some pattern matches; every chunk carries the label of such an object,
  and a labelled payload is the byte string that the object holds.
\<close>

definition labelled_by :: "args \<Rightarrow> string \<Rightarrow> nat list \<Rightarrow> (nat \<Rightarrow> UnpackResult)
    \<Rightarrow> (nat \<Rightarrow> UnpackResult) \<Rightarrow> event \<Rightarrow> bool" where
  "labelled_by a root objs heap st ev =
     (case ev of
        YieldChunk d l \<Rightarrow>
          (\<exists>r \<in> set objs. check_path a (path (heap r)) \<and> l = label a root (path (heap r))
             \<and> data (st r) = Bytes d)
      | YieldPath bs \<Rightarrow>
          (\<exists>r \<in> set objs. check_path a (path (heap r))
             \<and> bs = codec a (label a root (path (heap r))))
      | _ \<Rightarrow> True)"

definition run_inv :: "args \<Rightarrow> string \<Rightarrow> nat list \<Rightarrow> (nat \<Rightarrow> UnpackResult) \<Rightarrow> pstate \<Rightarrow> bool" where
  "run_inv a root objs heap s \<longleftrightarrow>
     (\<forall>x. path (store s x) = path (heap x))
     \<and> (\<forall>x. \<not> check_path a (path (heap x)) \<longrightarrow> store s x = heap x \<and> x \<notin> set (invoked s))
     \<and> (list_flag a \<longrightarrow> store s = heap \<and> invoked s = [])
     \<and> (\<forall>r \<in> set (results s). r \<in> set objs \<and> check_path a (path (heap r)))
     \<and> (\<forall>ev \<in> set (trace s). labelled_by a root objs heap (store s) ev)"

section \<open>MemoryExtractorUnit\<close>

record margs =
  offset :: nat
  count :: nat
  utf16 :: bool
  ascii :: bool

text \<open>\<open>data.find(b'\0', start)\<close>: the lowest index from \<open>start\<close> on that holds the byte.\<close>

fun index_of :: "byte \<Rightarrow> bytes \<Rightarrow> nat option" where
  "index_of b [] = None"
| "index_of b (x # xs) = (if x = b then Some 0 else map_option Suc (index_of b xs))"

definition bytes_find :: "bytes \<Rightarrow> byte \<Rightarrow> nat \<Rightarrow> nat option" where
  "bytes_find bs b start = map_option (\<lambda>k. start + k) (index_of b (drop start bs))"

text \<open>
  The loop \<open>for end in range(start, len(data), 2)\<close>: \<open>data[end + 1]\<close> is read only when
  \<open>data[end]\<close> is zero, and raises \<open>IndexError\<close> past the end of the buffer.
\<close>

function utf16_scan :: "bytes \<Rightarrow> nat \<Rightarrow> error + nat" where
  "utf16_scan bs e =
     (if e < length bs then
        (if bs ! e = 0 then
           (if e + 1 < length bs then
              (if bs ! (e + 1) = 0 then Inr e else utf16_scan bs (e + 2))
            else Inl IndexError)
         else utf16_scan bs (e + 2))
      else Inl EndOfStringNotFound)"
  by pat_completeness auto
termination
  by (relation "measure (\<lambda>(bs, e). length bs - e)") auto

declare utf16_scan.simps [simp del]

text \<open>\<open>data[start:end]\<close> for offsets that are not negative; \<open>None\<close> is the open end.\<close>

definition slice :: "bytes \<Rightarrow> nat \<Rightarrow> nat option \<Rightarrow> bytes" where
  "slice bs start end = (case end of None \<Rightarrow> drop start bs | Some e \<Rightarrow> take (e - start) (drop start bs))"

text \<open>
  \<open>_read_from_memory\<close>: the oracle returns the start offset and an end offset or \<open>None\<close>.
  Offsets and the count are natural numbers.
\<close>

definition read_from_memory :: "margs \<Rightarrow> bytes \<Rightarrow> (nat \<Rightarrow> nat \<times> nat option) \<Rightarrow> error + bytes" where
  "read_from_memory a bs offset_oracle =
     (let (start, end0) = offset_oracle (offset a);
          found =
            (if ascii a then
               (case bytes_find bs 0 start of
                  None \<Rightarrow> Inl EndOfStringNotFound
                | Some e \<Rightarrow> Inr (Some e))
             else if utf16 a then
               (case utf16_scan bs start of Inl err \<Rightarrow> Inl err | Inr e \<Rightarrow> Inr (Some e))
             else Inr end0)
      in case found of
           Inl err \<Rightarrow> Inl err
         | Inr end1 \<Rightarrow>
             (let end2 =
                    (if count a \<noteq> 0 then
                       (let lbound = start + count a
                        in case end1 of None \<Rightarrow> Some lbound | Some e \<Rightarrow> Some (min e lbound))
                     else end1)
              in Inr (slice bs start end2)))"

section \<open>Properties of PathPattern\<close>

lemma set_make_stops:
  "set (make_stops pp) = {take k pp | k. k < length pp \<and> is_stop_char (pp ! k)}"
  by (auto simp: make_stops_def)

lemma make_stops_Nil: "make_stops pp = [] \<longleftrightarrow> (\<forall>c \<in> set pp. \<not> is_stop_char c)"
proof -
  have "make_stops pp = [] \<longleftrightarrow> set (make_stops pp) = {}" by simp
  also have "\<dots> \<longleftrightarrow> (\<forall>k < length pp. \<not> is_stop_char (pp ! k))"
    unfolding set_make_stops by blast
  also have "\<dots> \<longleftrightarrow> (\<forall>c \<in> set pp. \<not> is_stop_char c)"
    by (simp add: all_set_conv_all_nth)
  finally show ?thesis .
qed

lemma fnmatch_empty_pat: "fnmatch s [] \<longleftrightarrow> s = []"
  by (simp add: fnmatch_def)

text \<open>
  C1, as stated, fails: the path \<open>x.txt\<close> fully matches the wildcard pattern \<open>*.txt\<close>, and
  \<open>reach\<close> is false for it, since the only stop of the pattern is the empty prefix.
\<close>

theorem check_without_reach:
  "check (PathPattern ''*.txt'') ''x.txt'' \<and> \<not> reach (PathPattern ''*.txt'') ''x.txt''"
  by (simp add: check_def reach_def PathPattern_def make_stops_def is_stop_char_def
      fnmatch_def upt_rec)

text \<open>
  C1, amended: for a wildcard pattern without \<open>/\<close>, \<open>*\<close> and \<open>?\<close> there are no stops and
  \<open>reach\<close> is true of every path, so a full match implies it. For any wildcard pattern,
  \<open>reach\<close> is true of a path exactly when the pattern has no such character or the path
  wildcard-matches a stop, that is a prefix of the pattern that ends just before a \<open>/\<close>,
  \<open>*\<close> or \<open>?\<close>.
\<close>

theorem reach_characterised:
  "((\<forall>c \<in> set pp. \<not> is_stop_char c) \<and> check (PathPattern pp) s \<longrightarrow> reach (PathPattern pp) s)
   \<and> (reach (PathPattern pp) s \<longleftrightarrow>
        (\<forall>c \<in> set pp. \<not> is_stop_char c)
        \<or> (\<exists>k < length pp. is_stop_char (pp ! k) \<and> fnmatch s (take k pp)))"
proof -
  have "reach (PathPattern pp) s \<longleftrightarrow>
        (\<forall>c \<in> set pp. \<not> is_stop_char c)
        \<or> (\<exists>k < length pp. is_stop_char (pp ! k) \<and> fnmatch s (take k pp))"
    unfolding reach_def PathPattern_def using make_stops_Nil [of pp]
    by (auto simp: set_make_stops)
  then show ?thesis by blast
qed

theorem reach_characterised_witness:
  "\<not> is_stop_char CHR ''a'' \<and> \<not> is_stop_char CHR ''b''
   \<and> check (PathPattern ''ab'') ''ab'' \<and> reach (PathPattern ''ab'') ''ab''"
  using reach_characterised [of "''ab''" "''ab''"]
  by (simp add: is_stop_char_def check_def PathPattern_def)

text \<open>
  C9: a wildcard pattern that starts with \<open>/\<close>, \<open>*\<close> or \<open>?\<close> has the empty string among its
  stops; the empty pattern matches the empty path only; so \<open>reach\<close> is false for a path that
  is not empty and matches no stop other than the empty one. With the default path
  arguments, \<open>_check_reachable\<close> is false for every path that is not empty.
\<close>

theorem empty_stop_blocks_reach:
  assumes "pp \<noteq> []" and "is_stop_char (hd pp)"
  shows "[] \<in> set (stops (PathPattern pp))
    \<and> (fnmatch s [] \<longleftrightarrow> s = [])
    \<and> (s \<noteq> [] \<and> (\<forall>stop \<in> set (stops (PathPattern pp)). stop \<noteq> [] \<longrightarrow> \<not> fnmatch s stop)
         \<longrightarrow> \<not> reach (PathPattern pp) s)
    \<and> (s \<noteq> [] \<longrightarrow> \<not> check_reachable (init_args default_paths l j c) s)"
proof -
  from assms have "take 0 pp \<in> set (make_stops pp)"
    unfolding set_make_stops by (intro CollectI exI [of _ 0]) (simp add: hd_conv_nth)
  then have a: "[] \<in> set (stops (PathPattern pp))"
    by (simp add: PathPattern_def)
  have b: "\<not> reach (PathPattern pp) s"
    if "s \<noteq> []" "\<forall>stop \<in> set (stops (PathPattern pp)). stop \<noteq> [] \<longrightarrow> \<not> fnmatch s stop"
  proof -
    from a have "stops (PathPattern pp) \<noteq> []" by auto
    moreover have "\<not> fnmatch s stop" if "stop \<in> set (stops (PathPattern pp))" for stop
      using that \<open>s \<noteq> []\<close> \<open>\<forall>stop \<in> set (stops (PathPattern pp)). stop \<noteq> [] \<longrightarrow> \<not> fnmatch s stop\<close>
      by (cases "stop = []") (simp_all add: fnmatch_empty_pat)
    ultimately show ?thesis by (simp add: reach_def)
  qed
  have "make_stops ''*'' = [[]]"
    by (simp add: make_stops_def is_stop_char_def)
  then have c: "\<not> check_reachable (init_args default_paths l j c) s" if "s \<noteq> []"
    using that
    by (simp add: check_reachable_def init_args_def default_paths_def PathPattern_def reach_def
        fnmatch_empty_pat)
  from a b c show ?thesis by (simp add: fnmatch_empty_pat)
qed

theorem empty_stop_blocks_reach_witness:
  "''*'' \<noteq> [] \<and> is_stop_char (hd ''*'')
   \<and> [] \<in> set (stops (PathPattern ''*''))
   \<and> \<not> reach (PathPattern ''*'') ''a''
   \<and> \<not> check_reachable (init_args default_paths False False (\<lambda>p. [])) ''a''"
proof -
  have h1: "''*'' \<noteq> []" by simp
  have h2: "is_stop_char (hd ''*'')" by (simp add: is_stop_char_def)
  have "make_stops ''*'' = [[]]"
    by (simp add: make_stops_def is_stop_char_def)
  then show ?thesis
    using h1 h2 empty_stop_blocks_reach [OF h1 h2, of "''a''" False False "\<lambda>p. []"]
    by (simp add: PathPattern_def)
qed

section \<open>Properties of the memory reader\<close>

lemma index_of_None: "index_of b xs = None \<longleftrightarrow> b \<notin> set xs"
  by (induction xs) auto

lemma index_of_Some:
  "index_of b xs = Some k \<longleftrightarrow> k < length xs \<and> xs ! k = b \<and> (\<forall>j < k. xs ! j \<noteq> b)"
proof (induction xs arbitrary: k)
  case Nil
  then show ?case by simp
next
  case (Cons x xs)
  show ?case
  proof (cases "x = b")
    case True
    then show ?thesis by (cases k) auto
  next
    case False
    show ?thesis
    proof (cases k)
      case 0
      with False show ?thesis by auto
    next
      case (Suc m)
      have "(\<forall>j < Suc m. (x # xs) ! j \<noteq> b) \<longleftrightarrow> (\<forall>j < m. xs ! j \<noteq> b)"
        using False by (auto simp: less_Suc_eq_0_disj)
      with False Suc Cons.IH [of m] show ?thesis by auto
    qed
  qed
qed

lemma bytes_find_None:
  "bytes_find bs b start = None \<longleftrightarrow> (\<forall>i. start \<le> i \<and> i < length bs \<longrightarrow> bs ! i \<noteq> b)"
proof -
  have "b \<notin> set (drop start bs) \<longleftrightarrow> (\<forall>i. start \<le> i \<and> i < length bs \<longrightarrow> bs ! i \<noteq> b)"
  proof
    assume a: "b \<notin> set (drop start bs)"
    show "\<forall>i. start \<le> i \<and> i < length bs \<longrightarrow> bs ! i \<noteq> b"
    proof (intro allI impI)
      fix i assume i: "start \<le> i \<and> i < length bs"
      then have "i - start < length (drop start bs)" by auto
      then have "drop start bs ! (i - start) \<in> set (drop start bs)"
        by (rule nth_mem)
      with i a show "bs ! i \<noteq> b" by auto
    qed
  next
    assume a: "\<forall>i. start \<le> i \<and> i < length bs \<longrightarrow> bs ! i \<noteq> b"
    show "b \<notin> set (drop start bs)"
    proof
      assume "b \<in> set (drop start bs)"
      then obtain k where "k < length (drop start bs)" "drop start bs ! k = b"
        by (auto simp: in_set_conv_nth)
      with a [rule_format, of "start + k"] show False by auto
    qed
  qed
  then show ?thesis by (simp add: bytes_find_def index_of_None)
qed

lemma bytes_find_Some:
  "bytes_find bs b start = Some i \<longleftrightarrow>
     start \<le> i \<and> i < length bs \<and> bs ! i = b \<and> (\<forall>j. start \<le> j \<and> j < i \<longrightarrow> bs ! j \<noteq> b)"
  (is "?L \<longleftrightarrow> ?R")
proof
  assume ?L
  then obtain k where k: "index_of b (drop start bs) = Some k" and i: "i = start + k"
    by (auto simp: bytes_find_def)
  from k have *: "k < length (drop start bs)" "drop start bs ! k = b"
    "\<forall>j < k. drop start bs ! j \<noteq> b"
    by (simp_all add: index_of_Some)
  have "bs ! j \<noteq> b" if "start \<le> j" "j < i" for j
    using *(3) [rule_format, of "j - start"] that i *(1) by auto
  with * i show ?R by auto
next
  assume r: ?R
  then have "i - start < length (drop start bs)" "drop start bs ! (i - start) = b"
    by auto
  moreover have "\<forall>j < i - start. drop start bs ! j \<noteq> b"
  proof (intro allI impI)
    fix j assume "j < i - start"
    with r have "start + j < i" "start + j < length bs" by auto
    with r show "drop start bs ! j \<noteq> b" by auto
  qed
  ultimately have "index_of b (drop start bs) = Some (i - start)"
    by (simp add: index_of_Some)
  with r show ?L by (simp add: bytes_find_def)
qed

text \<open>
  C5: in ASCII mode without a count, \<open>_read_from_memory\<close> returns \<open>data[start:i]\<close> for the
  index \<open>i\<close> of the first zero byte at or after \<open>start\<close>; it raises \<open>EndOfStringNotFound\<close>
  exactly when no byte at or after \<open>start\<close> is zero, and raises nothing else.
\<close>

theorem ascii_read:
  assumes "ascii a" and "count a = 0" and "offset_oracle (offset a) = (start, end0)"
  shows "(start \<le> i \<and> i < length bs \<and> bs ! i = 0 \<and> (\<forall>j. start \<le> j \<and> j < i \<longrightarrow> bs ! j \<noteq> 0)
            \<longrightarrow> read_from_memory a bs offset_oracle = Inr (slice bs start (Some i)))
       \<and> (read_from_memory a bs offset_oracle = Inl EndOfStringNotFound
            \<longleftrightarrow> (\<forall>i. start \<le> i \<and> i < length bs \<longrightarrow> bs ! i \<noteq> 0))
       \<and> (\<forall>e. read_from_memory a bs offset_oracle = Inl e \<longrightarrow> e = EndOfStringNotFound)"
proof -
  have r: "read_from_memory a bs offset_oracle =
      (case bytes_find bs 0 start of None \<Rightarrow> Inl EndOfStringNotFound
       | Some e \<Rightarrow> Inr (slice bs start (Some e)))"
    using assms by (simp add: read_from_memory_def split: option.splits)
  have 1: "read_from_memory a bs offset_oracle = Inr (slice bs start (Some i))"
    if "start \<le> i \<and> i < length bs \<and> bs ! i = 0 \<and> (\<forall>j. start \<le> j \<and> j < i \<longrightarrow> bs ! j \<noteq> 0)"
  proof -
    from that have "bytes_find bs 0 start = Some i" by (simp add: bytes_find_Some)
    then show ?thesis by (simp add: r)
  qed
  have 2: "read_from_memory a bs offset_oracle = Inl EndOfStringNotFound
            \<longleftrightarrow> (\<forall>i. start \<le> i \<and> i < length bs \<longrightarrow> bs ! i \<noteq> 0)"
    unfolding r bytes_find_None [symmetric] by (simp split: option.splits)
  have 3: "\<forall>e. read_from_memory a bs offset_oracle = Inl e \<longrightarrow> e = EndOfStringNotFound"
    unfolding r by (simp split: option.splits)
  from 1 2 3 show ?thesis by blast
qed

theorem ascii_read_witness:
  "read_from_memory \<lparr>offset = 0, count = 0, utf16 = False, ascii = True\<rparr>
     [65, 66, 0, 67, 68] (\<lambda>v. (v, None)) = Inr [65, 66]
   \<and> read_from_memory \<lparr>offset = 0, count = 0, utf16 = False, ascii = True\<rparr>
     [65, 66, 0, 67, 68] (\<lambda>v. (v, None)) \<noteq> Inl EndOfStringNotFound"
proof -
  let ?a = "\<lparr>offset = 0, count = 0, utf16 = False, ascii = True\<rparr>"
  let ?bs = "[65, 66, 0, 67, 68] :: bytes"
  let ?resolve = "\<lambda>v :: nat. (v, None :: nat option)"
  have h1: "ascii ?a" and h2: "count ?a = 0" and h3: "?resolve (offset ?a) = (0, None)"
    by simp_all
  have before: "?bs ! j \<noteq> 0" if "j < 2" for j
  proof -
    from that have "j = 0 \<or> j = 1" by arith
    then show ?thesis by auto
  qed
  have first: "(0::nat) \<le> 2 \<and> 2 < length ?bs \<and> ?bs ! 2 = 0
      \<and> (\<forall>j. 0 \<le> j \<and> j < 2 \<longrightarrow> ?bs ! j \<noteq> 0)"
    using before by simp
  from ascii_read [of ?a ?resolve 0 None 2 ?bs] h1 h2 h3 first
  have "read_from_memory ?a ?bs ?resolve = Inr (slice ?bs 0 (Some 2))"
    by blast
  then show ?thesis by (simp add: slice_def)
qed

text \<open>
  The UTF-16 loop: a result is the index of a pair of zero bytes at an even step from the
  start. When the number of bytes from the start on is even, the loop never reads past the
  buffer, and without such a pair the reader raises \<open>EndOfStringNotFound\<close>.
\<close>

lemma utf16_scan_Inr:
  "utf16_scan bs e = Inr i \<Longrightarrow>
     e \<le> i \<and> even (i - e) \<and> i + 1 < length bs \<and> bs ! i = 0 \<and> bs ! (i + 1) = 0"
proof (induction bs e rule: utf16_scan.induct)
  case (1 bs e)
  show ?case
  proof (cases "e < length bs \<and> bs ! e = 0 \<and> e + 1 < length bs \<and> bs ! (e + 1) = 0")
    case True
    with "1.prems" show ?thesis by (simp add: utf16_scan.simps [of bs e])
  next
    case False
    with "1.prems" have next_step: "utf16_scan bs (e + 2) = Inr i" and inside: "e < length bs"
      by (auto simp: utf16_scan.simps [of bs e] split: if_splits)
    have "e + 2 \<le> i \<and> even (i - (e + 2)) \<and> i + 1 < length bs \<and> bs ! i = 0 \<and> bs ! (i + 1) = 0"
    proof (cases "bs ! e = 0")
      case True
      with False inside "1.prems" have "e + 1 < length bs" "bs ! (e + 1) \<noteq> 0"
        by (auto simp: utf16_scan.simps [of bs e] split: if_splits)
      from "1.IH"(1) [OF inside True this next_step] show ?thesis .
    next
      case False
      from "1.IH"(2) [OF inside False next_step] show ?thesis .
    qed
    then show ?thesis by auto
  qed
qed

lemma utf16_scan_even_tail:
  "even (length bs - e) \<Longrightarrow> utf16_scan bs e = Inl err \<Longrightarrow> err = EndOfStringNotFound"
proof (induction bs e rule: utf16_scan.induct)
  case (1 bs e)
  show ?case
  proof (cases "e < length bs")
    case False
    with "1.prems"(2) show ?thesis by (simp add: utf16_scan.simps [of bs e])
  next
    case inside: True
    have two: "e + 1 < length bs"
    proof (rule ccontr)
      assume "\<not> e + 1 < length bs"
      with inside have "length bs - e = 1" by arith
      with "1.prems"(1) show False by simp
    qed
    then have "length bs - e = (length bs - (e + 2)) + 2" by arith
    with "1.prems"(1) have ev: "even (length bs - (e + 2))" by simp
    show ?thesis
    proof (cases "bs ! e = 0")
      case True
      show ?thesis
      proof (cases "bs ! (e + 1) = 0")
        case True
        with \<open>bs ! e = 0\<close> inside two "1.prems"(2) show ?thesis
          by (simp add: utf16_scan.simps [of bs e])
      next
        case False
        with True inside two "1.prems"(2) have "utf16_scan bs (e + 2) = Inl err"
          by (simp add: utf16_scan.simps [of bs e])
        from "1.IH"(1) [OF inside True two False ev this] show ?thesis .
      qed
    next
      case False
      with inside "1.prems"(2) have "utf16_scan bs (e + 2) = Inl err"
        by (simp add: utf16_scan.simps [of bs e])
      from "1.IH"(2) [OF inside False ev this] show ?thesis .
    qed
  qed
qed

lemma utf16_even_tail_not_found:
  assumes "utf16 a" and "\<not> ascii a" and "offset_oracle (offset a) = (start, oend)"
    and "even (length bs - start)"
    and "\<forall>i. start \<le> i \<and> even (i - start) \<and> i + 1 < length bs
           \<longrightarrow> \<not> (bs ! i = 0 \<and> bs ! (i + 1) = 0)"
  shows "read_from_memory a bs offset_oracle = Inl EndOfStringNotFound"
proof -
  have "utf16_scan bs start = Inl EndOfStringNotFound"
  proof (cases "utf16_scan bs start")
    case (Inl err)
    with utf16_scan_even_tail [OF assms(4)] show ?thesis by simp
  next
    case (Inr i)
    with utf16_scan_Inr [of bs start i] assms(5) show ?thesis by blast
  qed
  with assms(1-3) show ?thesis by (simp add: read_from_memory_def)
qed

text \<open>
  C4 fails on the code: for the buffer \<open>b"AB\x00"\<close> read at offset 0 in UTF-16 mode, no
  aligned pair of zero bytes exists, and the read of \<open>data[end + 1]\<close> at \<open>end = 2\<close> raises
  \<open>IndexError\<close>, not \<open>EndOfStringNotFound\<close>.
\<close>

theorem utf16_lone_zero_index_error:
  "read_from_memory \<lparr>offset = 0, count = 0, utf16 = True, ascii = False\<rparr>
     [65, 66, 0] (\<lambda>v. (v, None)) = Inl IndexError"
  by (simp add: read_from_memory_def utf16_scan.simps)

text \<open>
  C6: with a count that is not zero, the end offset is the minimum of the end that the
  terminator gives and \<open>start + count\<close>; without a terminator switch and without an end from
  the oracle, the end offset is \<open>start + count\<close>, so that the result is the \<open>count\<close> bytes
  from \<open>start\<close> on.
\<close>

theorem count_bound:
  assumes "count a \<noteq> 0" and "offset_oracle (offset a) = (start, end0)"
  shows "(ascii a \<and> bytes_find bs 0 start = Some e \<longrightarrow>
            read_from_memory a bs offset_oracle
              = Inr (slice bs start (Some (min e (start + count a)))))
       \<and> (\<not> ascii a \<and> utf16 a \<and> utf16_scan bs start = Inr e \<longrightarrow>
            read_from_memory a bs offset_oracle
              = Inr (slice bs start (Some (min e (start + count a)))))
       \<and> (\<not> ascii a \<and> \<not> utf16 a \<and> end0 = None \<longrightarrow>
            read_from_memory a bs offset_oracle = Inr (slice bs start (Some (start + count a)))
            \<and> read_from_memory a bs offset_oracle = Inr (take (count a) (drop start bs)))"
  using assms by (simp add: read_from_memory_def slice_def)


theorem count_bound_witness:
  "read_from_memory \<lparr>offset = 1, count = 2, utf16 = False, ascii = False\<rparr>
     [65, 66, 67, 68, 69, 70] (\<lambda>v. (v, None)) = Inr [66, 67]
   \<and> read_from_memory \<lparr>offset = 0, count = 4, utf16 = False, ascii = True\<rparr>
     [65, 66, 0, 67, 68] (\<lambda>v. (v, None)) = Inr [65, 66]
   \<and> read_from_memory \<lparr>offset = 0, count = 2, utf16 = True, ascii = False\<rparr>
     [65, 0, 66, 0, 0, 0] (\<lambda>v. (v, None)) = Inr [65, 0]"
proof -
  let ?resolve = "\<lambda>v :: nat. (v, None :: nat option)"
  let ?a = "\<lparr>offset = 1, count = 2, utf16 = False, ascii = False\<rparr>"
  let ?b = "\<lparr>offset = 0, count = 4, utf16 = False, ascii = True\<rparr>"
  let ?c = "\<lparr>offset = 0, count = 2, utf16 = True, ascii = False\<rparr>"
  have a: "count ?a \<noteq> 0" "?resolve (offset ?a) = (1, None)" by simp_all
  have b: "count ?b \<noteq> 0" "?resolve (offset ?b) = (0, None)" by simp_all
  have c: "count ?c \<noteq> 0" "?resolve (offset ?c) = (0, None)" by simp_all
  have fb: "bytes_find [65, 66, 0, 67, 68] 0 0 = Some 2"
    by (simp add: bytes_find_def)
  have fc: "utf16_scan [65, 0, 66, 0, 0, 0] 0 = Inr 4"
    by (simp add: utf16_scan.simps)
  from count_bound [of ?a ?resolve 1 None "[65, 66, 67, 68, 69, 70]" 0] a
  have 1: "read_from_memory ?a [65, 66, 67, 68, 69, 70] ?resolve = Inr [66, 67]"
    by (simp add: slice_def)
  from count_bound [of ?b ?resolve 0 None "[65, 66, 0, 67, 68]" 2] b fb
  have 2: "read_from_memory ?b [65, 66, 0, 67, 68] ?resolve = Inr [65, 66]"
    by (simp add: slice_def)
  from count_bound [of ?c ?resolve 0 None "[65, 0, 66, 0, 0, 0]" 4] c fc
  have 3: "read_from_memory ?c [65, 0, 66, 0, 0, 0] ?resolve = Inr [65, 0]"
    by (simp add: slice_def)
  from 1 2 3 show ?thesis by simp
qed

section \<open>Properties of UnpackResult\<close>

text \<open>
  C7: when a call of \<open>get_data\<close> returns a byte string, the next call returns the same byte
  string, leaves the object as it is and invokes nothing; the first call invokes the callable
  at most once, and when the stored payload was a callable, it has been replaced by the bytes
  that the callable produced. So the callable is invoked at most once over all the calls.
\<close>

theorem get_data_once:
  assumes "get_data r = (Inr b, r', n)"
  shows "get_data r' = (Inr b, r', 0) \<and> n \<le> 1
     \<and> (\<forall>f. data r = Deferred f \<longrightarrow> f () = Inr b \<and> data r' = Bytes b \<and> n = 1)
     \<and> path r' = path r"
  using assms by (auto simp: get_data_def split: payload.splits sum.splits)

theorem get_data_once_witness:
  "get_data \<lparr>path = ''a'', data = Deferred (\<lambda>u. Inr [1, 2])\<rparr>
     = (Inr [1, 2], \<lparr>path = ''a'', data = Bytes [1, 2]\<rparr>, 1)
   \<and> get_data \<lparr>path = ''a'', data = Bytes [1, 2]\<rparr>
     = (Inr [1, 2], \<lparr>path = ''a'', data = Bytes [1, 2]\<rparr>, 0)"
proof -
  have h: "get_data \<lparr>path = ''a'', data = Deferred (\<lambda>u. Inr [1, 2])\<rparr>
     = (Inr [1, 2], \<lparr>path = ''a'', data = Bytes [1, 2]\<rparr>, 1)"
    by (simp add: get_data_def)
  from get_data_once [OF h] h show ?thesis by simp
qed

section \<open>Properties of the extractor\<close>

lemma get_data_path: "get_data r = (res, r', n) \<Longrightarrow> path r' = path r"
  by (auto simp: get_data_def split: payload.splits sum.splits)

lemma get_data_at_frame:
  assumes "get_data_at r s = (res, s')"
  shows "results s' = results s" and "paths s' = paths s" and "trace s' = trace s"
    and "path (store s' x) = path (store s x)"
    and "x \<noteq> r \<Longrightarrow> store s' x = store s x"
    and "set (invoked s') \<subseteq> insert r (set (invoked s))"
    and "data (store s x) = Bytes d \<Longrightarrow> data (store s' x) = Bytes d"
    and "res = Inr b \<Longrightarrow> data (store s' r) = Bytes b"
proof -
  obtain res0 obj n where g: "get_data (store s r) = (res0, obj, n)"
    by (cases "get_data (store s r)") auto
  with assms have s': "s' = s\<lparr>store := (store s)(r := obj), invoked := invoked s @ replicate n r\<rparr>"
    by (simp add: get_data_at_def)
  show "results s' = results s" "paths s' = paths s" "trace s' = trace s"
    by (simp_all add: s')
  show "path (store s' x) = path (store s x)"
    using get_data_path [OF g] by (simp add: s')
  show "x \<noteq> r \<Longrightarrow> store s' x = store s x"
    by (simp add: s')
  show "set (invoked s') \<subseteq> insert r (set (invoked s))"
    by (auto simp: s')
  show "data (store s x) = Bytes d \<Longrightarrow> data (store s' x) = Bytes d"
    using g by (auto simp: s' get_data_def)
  show "res = Inr b \<Longrightarrow> data (store s' r) = Bytes b"
    using g assms by (auto simp: s' get_data_at_def get_data_def split: payload.splits sum.splits)
qed

lemma labelled_by_store:
  assumes "labelled_by a root objs heap st ev"
    and "\<And>x d. data (st x) = Bytes d \<Longrightarrow> data (st' x) = Bytes d"
  shows "labelled_by a root objs heap st' ev"
  using assms by (cases ev) (auto simp: labelled_by_def)

lemma inv_get_data_at:
  assumes "run_inv a root objs heap s" and "check_path a (path (heap r))" and "\<not> list_flag a"
    and "get_data_at r s = (res, s')"
  shows "run_inv a root objs heap s'"
proof -
  note f = get_data_at_frame [OF assms(4)]
  note i = assms(1) [unfolded run_inv_def]
  have 1: "path (store s' x) = path (heap x)" for x
    using i f(4) [of x] by simp
  have 2: "store s' x = heap x \<and> x \<notin> set (invoked s')" if "\<not> check_path a (path (heap x))" for x
  proof -
    from that assms(2) have "x \<noteq> r" by auto
    with f(5) [of x] f(6) i that show ?thesis by auto
  qed
  from i f(1) have 4: "\<forall>r \<in> set (results s'). r \<in> set objs \<and> check_path a (path (heap r))"
    by simp
  have 5: "\<forall>ev \<in> set (trace s'). labelled_by a root objs heap (store s') ev"
  proof
    fix ev assume "ev \<in> set (trace s')"
    with i f(3) have "labelled_by a root objs heap (store s) ev" by simp
    then show "labelled_by a root objs heap (store s') ev"
      by (rule labelled_by_store) (rule f(7))
  qed
  from 1 2 4 5 assms(3) show ?thesis
    unfolding run_inv_def by blast
qed

lemma inv_log:
  "run_inv a root objs heap s \<Longrightarrow> labelled_by a root objs heap (store s) ev
    \<Longrightarrow> run_inv a root objs heap (log ev s)"
  by (simp add: run_inv_def log_def)

lemma inv_paths: "run_inv a root objs heap (s\<lparr>paths := m\<rparr>) = run_inv a root objs heap s"
  by (simp add: run_inv_def)

lemma inv_results:
  "run_inv a root objs heap s \<Longrightarrow> r \<in> set objs \<Longrightarrow> check_path a (path (heap r))
    \<Longrightarrow> run_inv a root objs heap (s\<lparr>results := results s @ [r]\<rparr>)"
  by (simp add: run_inv_def)

lemma inv_collect_one:
  assumes "run_inv a root objs heap s" and "r \<in> set objs" and "collect_one a r s = (e, s')"
  shows "run_inv a root objs heap s'"
proof (cases "check_path a (path (store s r))")
  case False
  with assms show ?thesis by (simp add: collect_one_def)
next
  case True
  with assms(1) have w: "check_path a (path (heap r))" by (simp add: run_inv_def)
  show ?thesis
  proof (cases "list_flag a")
    case True
    with assms \<open>check_path a (path (store s r))\<close> w show ?thesis
      by (auto simp: collect_one_def intro: inv_results)
  next
    case False
    obtain res s1 where g: "get_data_at r s = (res, s1)"
      by (cases "get_data_at r s") auto
    have i1: "run_inv a root objs heap s1"
      by (rule inv_get_data_at [OF assms(1) w False g])
    from inv_results [OF i1 assms(2) w] get_data_at_frame(1) [OF g] i1
    show ?thesis
      using assms(3) False \<open>check_path a (path (store s r))\<close> g
      by (auto simp: collect_one_def split: sum.splits)
  qed
qed

lemma inv_collect:
  "run_inv a root objs heap s \<Longrightarrow> set rs \<subseteq> set objs \<Longrightarrow> collect a rs s = (e, s')
    \<Longrightarrow> run_inv a root objs heap s'"
proof (induction rs arbitrary: s)
  case Nil
  then show ?case by simp
next
  case (Cons r rs)
  obtain e1 s1 where c: "collect_one a r s = (e1, s1)"
    by (cases "collect_one a r s") auto
  from Cons.prems c have i: "run_inv a root objs heap s1"
    by (auto intro: inv_collect_one)
  show ?case
  proof (cases e1)
    case None
    with Cons c i show ?thesis by auto
  next
    case (Some err)
    with Cons.prems c i show ?thesis by auto
  qed
qed

lemma inv_emit_one:
  assumes "run_inv a root objs heap s" and "r \<in> set (results s)"
    and "emit_one a root p r s = (e, s')"
  shows "run_inv a root objs heap s' \<and> results s' = results s"
proof -
  from assms(1,2) have w: "check_path a (path (heap r))" and o: "r \<in> set objs"
    and pth: "path (store s r) = path (heap r)"
    by (auto simp: run_inv_def)
  have lb: "data (st r) = Bytes d
        \<Longrightarrow> labelled_by a root objs heap st (YieldChunk d (label a root (path (heap r))))"
      "labelled_by a root objs heap st (YieldPath (codec a (label a root (path (heap r)))))"
      "labelled_by a root objs heap st (LogWarn x)" "labelled_by a root objs heap st (LogInfo x)"
    for d x st
    using o w by (auto simp: labelled_by_def)
  show ?thesis
  proof (cases "check p (path (heap r))")
    case False
    with assms pth show ?thesis by (simp add: emit_one_def)
  next
    case c: True
    show ?thesis
    proof (cases "list_flag a")
      case True
      with assms(3) pth c have s': "s' = log (YieldPath (codec a (label a root (path (heap r))))) s"
        by (simp add: emit_one_def Let_def)
      have "results s' = results s" by (simp add: s' log_def)
      with inv_log [OF assms(1) lb(2)] show ?thesis by (simp add: s')
    next
      case False
      obtain res1 s1 where g1: "get_data_at r s = (res1, s1)"
        by (cases "get_data_at r s") auto
      have i1: "run_inv a root objs heap s1"
        by (rule inv_get_data_at [OF assms(1) w False g1])
      note f1 = get_data_at_frame [OF g1]
      show ?thesis
      proof (cases res1)
        case (Inl err)
        with assms(3) pth c False g1 i1 f1 show ?thesis
          by (simp add: emit_one_def)
      next
        case (Inr d)
        let ?csum = "adler32 d"
        let ?pth = "path (heap r)"
        show ?thesis
        proof (cases "case paths s1 ?pth of None \<Rightarrow> False | Some cs \<Rightarrow> ?csum \<in> cs")
          case True
          with assms(3) pth c False g1 i1 f1 Inr show ?thesis
            by (simp add: emit_one_def)
        next
          case dup: False
          define s2 where "s2 = (if paths s1 ?pth \<noteq> None then log (LogWarn ?pth) s1 else s1)"
          define s3 where "s3 = s2\<lparr>paths := (paths s2)(?pth \<mapsto>
                            insert ?csum (case paths s2 ?pth of None \<Rightarrow> {} | Some cs \<Rightarrow> cs))\<rparr>"
          define s4 where "s4 = log (LogInfo (label a root ?pth)) s3"
          have i2: "run_inv a root objs heap s2"
            using i1 lb by (simp add: s2_def inv_log)
          then have i3: "run_inv a root objs heap s3"
            by (simp add: s3_def inv_paths)
          then have i4: "run_inv a root objs heap s4"
            using lb by (simp add: s4_def inv_log)
          have r4: "results s4 = results s"
            using f1(1) by (simp add: s4_def s3_def s2_def log_def)
          obtain res5 s5 where g5: "get_data_at r s4 = (res5, s5)"
            by (cases "get_data_at r s4") auto
          have i5: "run_inv a root objs heap s5"
            by (rule inv_get_data_at [OF i4 w False g5])
          note f5 = get_data_at_frame [OF g5]
          have e: "emit_one a root p r s =
              (case res5 of Inl e \<Rightarrow> (Some e, s5)
               | Inr d' \<Rightarrow> (None, log (YieldChunk d' (label a root ?pth)) s5))"
            using pth c False g1 Inr dup g5
            by (simp add: emit_one_def Let_def s2_def s3_def s4_def)
          show ?thesis
          proof (cases res5)
            case (Inl err)
            with e assms(3) i5 f5 r4 show ?thesis by simp
          next
            case (Inr d')
            with e assms(3) have s': "s' = log (YieldChunk d' (label a root ?pth)) s5" by simp
            from f5(8) Inr have "data (store s5 r) = Bytes d'" by simp
            from inv_log [OF i5 lb(1) [of "store s5" d', OF this]] f5(1) r4 show ?thesis
              by (simp add: s') (simp add: log_def)
          qed
        qed
      qed
    qed
  qed
qed

lemma inv_emit:
  "run_inv a root objs heap s \<Longrightarrow> set rs \<subseteq> set (results s) \<Longrightarrow> emit a root p rs s = (e, s')
    \<Longrightarrow> run_inv a root objs heap s' \<and> results s' = results s"
proof (induction rs arbitrary: s)
  case Nil
  then show ?case by simp
next
  case (Cons r rs)
  obtain e1 s1 where c: "emit_one a root p r s = (e1, s1)"
    by (cases "emit_one a root p r s") auto
  from Cons.prems have "r \<in> set (results s)" by simp
  from inv_emit_one [OF Cons.prems(1) this c]
  have i: "run_inv a root objs heap s1" and r: "results s1 = results s" by simp_all
  show ?case
  proof (cases e1)
    case None
    with Cons.prems c have "emit a root p rs s1 = (e, s')" by simp
    from Cons.IH [OF i _ this] Cons.prems(2) r show ?thesis by simp
  next
    case (Some err)
    with Cons.prems c i r show ?thesis by auto
  qed
qed

lemma inv_emit_all:
  "run_inv a root objs heap s \<Longrightarrow> emit_all a root ps s = (e, s')
    \<Longrightarrow> run_inv a root objs heap s'"
proof (induction ps arbitrary: s)
  case Nil
  then show ?case by simp
next
  case (Cons p ps)
  let ?s0 = "log (LogDebug (pattern p)) s"
  have i0: "run_inv a root objs heap ?s0"
    using Cons.prems(1) by (simp add: inv_log labelled_by_def)
  have r0: "results ?s0 = results s" by (simp add: log_def)
  obtain e1 s1 where c: "emit a root p (results s) ?s0 = (e1, s1)"
    by (cases "emit a root p (results s) ?s0") auto
  from inv_emit [OF i0 _ c] r0 have i: "run_inv a root objs heap s1" by simp
  show ?case
  proof (cases e1)
    case None
    with Cons.prems c have "emit_all a root ps s1 = (e, s')" by simp
    from Cons.IH [OF i this] show ?thesis .
  next
    case (Some err)
    with Cons.prems c i show ?thesis by auto
  qed
qed

lemma inv_process:
  assumes "process a meta objs heap = (e, s)"
  shows "run_inv a (root_of meta) objs heap s"
proof -
  let ?root = "root_of meta"
  let ?s0 = "\<lparr>store = heap, results = [], paths = Map.empty, invoked = [], trace = []\<rparr>"
  have i0: "run_inv a ?root objs heap ?s0" by (simp add: run_inv_def)
  obtain e1 s1 where c: "collect a objs ?s0 = (e1, s1)"
    by (cases "collect a objs ?s0") auto
  from inv_collect [OF i0 _ c] have i1: "run_inv a ?root objs heap s1" by simp
  show ?thesis
  proof (cases e1)
    case None
    with assms c have "emit_all a ?root (patterns a) s1 = (e, s)"
      by (simp add: process_def Let_def)
    from inv_emit_all [OF i1 this] show ?thesis .
  next
    case (Some err)
    with assms c i1 show ?thesis by (simp add: process_def Let_def)
  qed
qed

lemma get_data_at_Inr:
  assumes "fst (get_data (store s r)) = Inr b"
  shows "\<exists>s'. get_data_at r s = (Inr b, s') \<and> data (store s' r) = Bytes b
      \<and> path (store s' r) = path (store s r)
      \<and> (\<forall>x. x \<noteq> r \<longrightarrow> store s' x = store s x)
      \<and> results s' = results s \<and> paths s' = paths s \<and> trace s' = trace s"
  using assms
  by (auto simp: get_data_at_def get_data_def split: payload.splits sum.splits)

lemma get_data_at_Bytes:
  assumes "data (store s r) = Bytes b"
  shows "get_data_at r s = (Inr b, s)"
  using assms by (simp add: get_data_at_def get_data_def)

lemma pattern_PathPattern: "pattern (PathPattern pp) = translate pp"
  by (simp add: PathPattern_def)

lemma check_txt: "check (PathPattern ''*.txt'') ''x.txt''" "check (PathPattern ''*'') ''x.txt''"
  by (simp_all add: check_def PathPattern_def)

lemma path_join_absolute: "b \<noteq> [] \<Longrightarrow> hd b = CHR ''/'' \<Longrightarrow> path_join a b = b"
  by (simp add: path_join_def)

lemma path_join_empty_root: "path_join [] b = b"
  by (simp add: path_join_def)

text \<open>
  C2, as stated, fails: with the patterns \<open>*.txt\<close> and \<open>*\<close> and one object with the path
  \<open>x.txt\<close>, outside list mode, the run yields one chunk, not two.
\<close>

theorem shared_ledger_single_emission:
  "yields (trace (snd (process (init_args [''*.txt'', ''*''] False False (\<lambda>p. [])) None [0]
      (\<lambda>r. \<lparr>path = ''x.txt'', data = Bytes [1, 2]\<rparr>)))) = [YieldChunk [1, 2] ''x.txt'']
   \<and> length (yields (trace (snd (process (init_args [''*.txt'', ''*''] False False (\<lambda>p. [])) None [0]
      (\<lambda>r. \<lparr>path = ''x.txt'', data = Bytes [1, 2]\<rparr>))))) = 1"
  by (simp add: process_def init_args_def check_txt check_path_def get_data_at_def get_data_def
      log_def label_def yields_def Let_def collect_one_def emit_one_def)

text \<open>
  C2, amended: with the patterns \<open>*.txt\<close> and \<open>*\<close>, without \<open>join\<close>, and one object with the path
  \<open>x.txt\<close> whose payload is the byte string \<open>b\<close>, a run outside list mode yields the payload
  once, labelled \<open>x.txt\<close>, for the first pattern; for the second pattern the checksum of the
  path is in the ledger already and nothing is yielded or logged for the object. In list mode
  the encoded path is yielded twice, once for each pattern.
\<close>

theorem two_patterns_one_emission:
  assumes "path (heap r) = ''x.txt''" and "fst (get_data (heap r)) = Inr b"
  shows "(let a = init_args [''*.txt'', ''*''] False False c in
          trace (snd (process a meta [r] heap))
            = [LogDebug (translate ''*.txt''), LogInfo ''x.txt'', YieldChunk b ''x.txt'',
               LogDebug (translate ''*'')])
       \<and> (let a = init_args [''*.txt'', ''*''] True False c in
          trace (snd (process a meta [r] heap))
            = [LogDebug (translate ''*.txt''), YieldPath (c ''x.txt''),
               LogDebug (translate ''*''), YieldPath (c ''x.txt'')])"
proof -
  let ?s0 = "\<lparr>store = heap, results = [], paths = Map.empty, invoked = [], trace = []\<rparr>"
  from get_data_at_Inr [of ?s0 r b] assms(2)
  obtain s1 where g: "get_data_at r ?s0 = (Inr b, s1)" and d: "data (store s1 r) = Bytes b"
    and p: "path (store s1 r) = ''x.txt''" and f: "results s1 = []" "paths s1 = Map.empty" "trace s1 = []"
    using assms(1) by auto
  have b: "get_data_at r s = (Inr b, s)" if "store s = store s1" for s
    using that d by (simp add: get_data_at_Bytes)
  have 1: "trace (snd (process (init_args [''*.txt'', ''*''] False False c) meta [r] heap))
            = [LogDebug (translate ''*.txt''), LogInfo ''x.txt'', YieldChunk b ''x.txt'',
               LogDebug (translate ''*'')]"
    using assms(1) g p f
    by (simp add: process_def init_args_def collect_one_def check_path_def check_txt
        emit_one_def Let_def log_def b label_def pattern_PathPattern)
  have 2: "trace (snd (process (init_args [''*.txt'', ''*''] True False c) meta [r] heap))
            = [LogDebug (translate ''*.txt''), YieldPath (c ''x.txt''),
               LogDebug (translate ''*''), YieldPath (c ''x.txt'')]"
    using assms(1)
    by (simp add: process_def init_args_def collect_one_def check_path_def check_txt
        emit_one_def Let_def log_def label_def pattern_PathPattern)
  from 1 2 show ?thesis by simp
qed

theorem two_patterns_one_emission_witness:
  "trace (snd (process (init_args [''*.txt'', ''*''] False False (\<lambda>p. [])) None [0]
      (\<lambda>r. \<lparr>path = ''x.txt'', data = Deferred (\<lambda>u. Inr [7])\<rparr>)))
    = [LogDebug (translate ''*.txt''), LogInfo ''x.txt'', YieldChunk [7] ''x.txt'',
       LogDebug (translate ''*'')]"
proof -
  let ?heap = "\<lambda>r :: nat. \<lparr>path = ''x.txt'', data = Deferred (\<lambda>u. Inr [7])\<rparr>"
  have h1: "path (?heap 0) = ''x.txt''" by simp
  have h2: "fst (get_data (?heap 0)) = Inr [7]" by (simp add: get_data_def)
  from two_patterns_one_emission [of ?heap 0 "[7]" "\<lambda>p. []" None, OF h1 h2] show ?thesis
    by (simp add: Let_def)
qed

text \<open>
  C3: outside list mode, with one pattern that matches the common path of two objects whose
  payloads are \<open>b1\<close> and \<open>b2\<close>: the run ends without an exception; when the checksums are
  equal, the first payload is yielded and nothing is yielded or logged for the second; when
  the checksums differ, both payloads are yielded, with one warning, before the second one.
\<close>

theorem same_path_dedup:
  assumes "\<not> list_flag a" and "patterns a = [p]" and "r1 \<noteq> r2"
    and "path (heap r1) = pth" and "path (heap r2) = pth" and "check p pth"
    and "fst (get_data (heap r1)) = Inr b1" and "fst (get_data (heap r2)) = Inr b2"
  shows "fst (process a meta [r1, r2] heap) = None
       \<and> (adler32 b1 = adler32 b2 \<longrightarrow>
            yields (trace (snd (process a meta [r1, r2] heap)))
              = [YieldChunk b1 (label a (root_of meta) pth)]
            \<and> warnings (trace (snd (process a meta [r1, r2] heap))) = []
            \<and> trace (snd (process a meta [r1, r2] heap))
              = [LogDebug (pattern p), LogInfo (label a (root_of meta) pth),
                 YieldChunk b1 (label a (root_of meta) pth)])
       \<and> (adler32 b1 \<noteq> adler32 b2 \<longrightarrow>
            yields (trace (snd (process a meta [r1, r2] heap)))
              = [YieldChunk b1 (label a (root_of meta) pth),
                 YieldChunk b2 (label a (root_of meta) pth)]
            \<and> warnings (trace (snd (process a meta [r1, r2] heap))) = [LogWarn pth]
            \<and> trace (snd (process a meta [r1, r2] heap))
              = [LogDebug (pattern p), LogInfo (label a (root_of meta) pth),
                 YieldChunk b1 (label a (root_of meta) pth),
                 LogWarn pth, LogInfo (label a (root_of meta) pth),
                 YieldChunk b2 (label a (root_of meta) pth)])"
proof -
  let ?s0 = "\<lparr>store = heap, results = [], paths = Map.empty, invoked = [], trace = []\<rparr>"
  from get_data_at_Inr [of ?s0 r1 b1] assms(7)
  obtain s1 where g1: "get_data_at r1 ?s0 = (Inr b1, s1)" and d1: "data (store s1 r1) = Bytes b1"
    and p1: "path (store s1 r1) = pth" and o1: "\<forall>x. x \<noteq> r1 \<longrightarrow> store s1 x = heap x"
    and f1: "results s1 = []" "paths s1 = Map.empty" "trace s1 = []"
    using assms(4) by auto
  let ?s1 = "s1\<lparr>results := [r1]\<rparr>"
  from o1 assms(3,8) have "fst (get_data (store ?s1 r2)) = Inr b2" by simp
  from get_data_at_Inr [OF this]
  obtain s2 where g2: "get_data_at r2 ?s1 = (Inr b2, s2)" and d2: "data (store s2 r2) = Bytes b2"
    and p2: "path (store s2 r2) = pth" and o2: "\<forall>x. x \<noteq> r2 \<longrightarrow> store s2 x = store s1 x"
    and f2: "results s2 = [r1]" "paths s2 = Map.empty" "trace s2 = []"
    using assms(3,5) o1 f1 by auto
  from o2 assms(3) d1 p1 have d21: "data (store s2 r1) = Bytes b1" "path (store s2 r1) = pth"
    by simp_all
  have b1: "get_data_at r1 s = (Inr b1, s)" if "store s = store s2" for s
    using that d21 by (simp add: get_data_at_Bytes)
  have b2: "get_data_at r2 s = (Inr b2, s)" if "store s = store s2" for s
    using that d2 by (simp add: get_data_at_Bytes)
  have c: "collect a [r1, r2] ?s0 = (None, s2\<lparr>results := [r1, r2]\<rparr>)"
    using assms(1,2,4,5,6) g1 g2 p1 o1 f1 f2 assms(3)
    by (simp add: collect_one_def check_path_def)
  have "process a meta [r1, r2] heap = emit_all a (root_of meta) [p] (s2\<lparr>results := [r1, r2]\<rparr>)"
    using c assms(2) by (simp add: process_def Let_def)
  then show ?thesis
    using assms(1,6) d21 p2 f2
    by (simp add: emit_one_def Let_def log_def b1 b2 yields_def warnings_def)
qed

theorem same_path_dedup_witness:
  "trace (snd (process \<lparr>patterns = [PathPattern ''a/*''], list_flag = False, join = False, codec = \<lambda>p. []\<rparr>
      None [0, 1] (\<lambda>r. \<lparr>path = ''a/b'', data = Bytes [1]\<rparr>)))
    = [LogDebug (translate ''a/*''), LogInfo ''a/b'', YieldChunk [1] ''a/b'']
   \<and> trace (snd (process \<lparr>patterns = [PathPattern ''a/*''], list_flag = False, join = False, codec = \<lambda>p. []\<rparr>
      None [0, 1] ((\<lambda>r. \<lparr>path = ''a/b'', data = Bytes [1]\<rparr>)(1 := \<lparr>path = ''a/b'', data = Bytes [2]\<rparr>))))
    = [LogDebug (translate ''a/*''), LogInfo ''a/b'', YieldChunk [1] ''a/b'',
       LogWarn ''a/b'', LogInfo ''a/b'', YieldChunk [2] ''a/b'']"
proof -
  let ?p = "PathPattern ''a/*''"
  let ?a = "\<lparr>patterns = [?p], list_flag = False, join = False, codec = \<lambda>p. []\<rparr>"
  let ?h1 = "\<lambda>r :: nat. \<lparr>path = ''a/b'', data = Bytes [1 :: byte]\<rparr>"
  let ?h2 = "?h1(1 := \<lparr>path = ''a/b'', data = Bytes [2]\<rparr>)"
  have a: "\<not> list_flag ?a" "patterns ?a = [?p]" "(0::nat) \<noteq> 1" by simp_all
  have c: "check ?p ''a/b''" by (simp add: check_def PathPattern_def)
  have s1: "adler32 [1] = adler32 [1]" by simp
  have s2: "adler32 [1] \<noteq> adler32 [2]" by (simp add: adler32_def)
  have 1: "trace (snd (process ?a None [0, 1] ?h1))
      = [LogDebug (pattern ?p), LogInfo (label ?a (root_of None) ''a/b''),
         YieldChunk [1] (label ?a (root_of None) ''a/b'')]"
    using same_path_dedup [of ?a ?p 0 1 ?h1 "''a/b''" "[1]" "[1]" None] a c s1
    by (simp add: get_data_def)
  have 2: "trace (snd (process ?a None [0, 1] ?h2))
      = [LogDebug (pattern ?p), LogInfo (label ?a (root_of None) ''a/b''),
         YieldChunk [1] (label ?a (root_of None) ''a/b''),
         LogWarn ''a/b'', LogInfo (label ?a (root_of None) ''a/b''),
         YieldChunk [2] (label ?a (root_of None) ''a/b'')]"
    using same_path_dedup [of ?a ?p 0 1 ?h2 "''a/b''" "[1]" "[2]" None] a c s2
    by (simp add: get_data_def)
  from 1 2 show ?thesis
    by (simp add: label_def pattern_PathPattern)
qed

text \<open>
  C8: after a run of \<open>process\<close>, however it ends, an object whose path none of the patterns
  matches is as it was and its callable has not been invoked; in list mode no object has
  changed and no callable has been invoked.
\<close>

theorem unmatched_untouched:
  assumes "process a meta objs heap = (e, s)"
  shows "(\<forall>x. \<not> check_path a (path (heap x)) \<longrightarrow> store s x = heap x \<and> x \<notin> set (invoked s))
       \<and> (list_flag a \<longrightarrow> store s = heap \<and> invoked s = [])"
  using inv_process [OF assms] unfolding run_inv_def by blast

theorem unmatched_untouched_witness:
  "store (snd (process (init_args [''*.txt''] False False (\<lambda>p. [])) None [0, 1]
      ((\<lambda>r. \<lparr>path = ''x.txt'', data = Bytes [1]\<rparr>)
         (1 := \<lparr>path = ''y.bin'', data = Deferred (\<lambda>u. Inr [2])\<rparr>)))) 1
     = \<lparr>path = ''y.bin'', data = Deferred (\<lambda>u. Inr [2])\<rparr>
   \<and> 1 \<notin> set (invoked (snd (process (init_args [''*.txt''] False False (\<lambda>p. [])) None [0, 1]
      ((\<lambda>r. \<lparr>path = ''x.txt'', data = Bytes [1]\<rparr>)
         (1 := \<lparr>path = ''y.bin'', data = Deferred (\<lambda>u. Inr [2])\<rparr>)))))
   \<and> \<not> check_path (init_args [''*.txt''] False False (\<lambda>p. [])) ''y.bin''"
proof -
  let ?a = "init_args [''*.txt''] False False (\<lambda>p. [])"
  let ?heap = "(\<lambda>r :: nat. \<lparr>path = ''x.txt'', data = Bytes [1]\<rparr>)
         (1 := \<lparr>path = ''y.bin'', data = Deferred (\<lambda>u. Inr [2])\<rparr>)"
  have n: "\<not> check_path ?a (path (?heap 1))"
    by (simp add: check_path_def init_args_def check_def PathPattern_def)
  have "process ?a None [0, 1] ?heap = (fst (process ?a None [0, 1] ?heap), snd (process ?a None [0, 1] ?heap))"
    by simp
  from unmatched_untouched [OF this] n show ?thesis by simp
qed

text \<open>
  C10: with \<open>join\<close>, every labelled payload that a run yields is the payload of one of the
  objects, and its label is the path of that object joined with the root; when that path
  starts with \<open>/\<close>, or when the root is empty, the label is the path of the object itself.
  In list mode the same holds of the path that is encoded.
\<close>

theorem join_label:
  assumes "join a" and "process a meta objs heap = (e, s)"
  shows "(\<forall>d l. YieldChunk d l \<in> set (trace s) \<longrightarrow>
            (\<exists>r \<in> set objs. data (store s r) = Bytes d
               \<and> l = path_join (root_of meta) (path (heap r))
               \<and> (path (heap r) \<noteq> [] \<and> hd (path (heap r)) = CHR ''/'' \<longrightarrow> l = path (heap r))
               \<and> (root_of meta = [] \<longrightarrow> l = path (heap r))))
       \<and> (\<forall>bs. YieldPath bs \<in> set (trace s) \<longrightarrow>
            (\<exists>r \<in> set objs. bs = codec a (path_join (root_of meta) (path (heap r)))
               \<and> (path (heap r) \<noteq> [] \<and> hd (path (heap r)) = CHR ''/'' \<longrightarrow> bs = codec a (path (heap r)))
               \<and> (root_of meta = [] \<longrightarrow> bs = codec a (path (heap r)))))"
proof -
  from inv_process [OF assms(2)]
  have l: "\<forall>ev \<in> set (trace s). labelled_by a (root_of meta) objs heap (store s) ev"
    by (simp add: run_inv_def)
  have 1: "\<exists>r \<in> set objs. data (store s r) = Bytes d
               \<and> l = path_join (root_of meta) (path (heap r))
               \<and> (path (heap r) \<noteq> [] \<and> hd (path (heap r)) = CHR ''/'' \<longrightarrow> l = path (heap r))
               \<and> (root_of meta = [] \<longrightarrow> l = path (heap r))"
    if "YieldChunk d l \<in> set (trace s)" for d l
  proof -
    from l that have "labelled_by a (root_of meta) objs heap (store s) (YieldChunk d l)" by blast
    then obtain r where "r \<in> set objs" "l = path_join (root_of meta) (path (heap r))"
        "data (store s r) = Bytes d"
      using assms(1) by (auto simp: labelled_by_def label_def)
    then show ?thesis
      by (auto simp: path_join_absolute path_join_empty_root)
  qed
  have 2: "\<exists>r \<in> set objs. bs = codec a (path_join (root_of meta) (path (heap r)))
               \<and> (path (heap r) \<noteq> [] \<and> hd (path (heap r)) = CHR ''/'' \<longrightarrow> bs = codec a (path (heap r)))
               \<and> (root_of meta = [] \<longrightarrow> bs = codec a (path (heap r)))"
    if "YieldPath bs \<in> set (trace s)" for bs
  proof -
    from l that have "labelled_by a (root_of meta) objs heap (store s) (YieldPath bs)" by blast
    then obtain r where "r \<in> set objs" "bs = codec a (path_join (root_of meta) (path (heap r)))"
      using assms(1) by (auto simp: labelled_by_def label_def)
    then show ?thesis
      by (auto simp: path_join_absolute path_join_empty_root)
  qed
  from 1 2 show ?thesis by blast
qed

theorem join_label_witness:
  "trace (snd (process \<lparr>patterns = [PathPattern ''*''], list_flag = False, join = True, codec = \<lambda>p. []\<rparr>
      (Some ''dir'') [0] (\<lambda>r. \<lparr>path = ''/abs.txt'', data = Bytes [1]\<rparr>)))
    = [LogDebug (translate ''*''), LogInfo ''/abs.txt'', YieldChunk [1] ''/abs.txt'']"
proof -
  let ?a = "\<lparr>patterns = [PathPattern ''*''], list_flag = False, join = True, codec = \<lambda>p. []\<rparr>"
  let ?heap = "\<lambda>r :: nat. \<lparr>path = ''/abs.txt'', data = Bytes [1 :: byte]\<rparr>"
  let ?run = "process ?a (Some ''dir'') [0] ?heap"
  have j: "join ?a" by simp
  have p: "?run = (fst ?run, snd ?run)" by simp
  have t: "trace (snd ?run)
      = [LogDebug (translate ''*''), LogInfo (path_join ''dir'' ''/abs.txt''),
         YieldChunk [1] (path_join ''dir'' ''/abs.txt'')]"
    by (simp add: process_def check_path_def check_def PathPattern_def get_data_at_def get_data_def
      log_def label_def Let_def collect_one_def emit_one_def root_of_def)
  then have "YieldChunk [1] (path_join ''dir'' ''/abs.txt'') \<in> set (trace (snd ?run))"
    by simp
  with join_label [OF j p] have "path_join ''dir'' ''/abs.txt'' = ''/abs.txt''"
    by fastforce
  with t show ?thesis by simp
qed

end
